theory Spec2Isabelle
  imports Main "HOL-Library.Multiset"
begin

section \<open>Word frequency counter (HW1/1a/wc0\_fixed.py)\<close>

text \<open>
  The pipeline of \<^verbatim>\<open>process_text\<close>: normalize, clean, filter, count, sort, truncate,
  assemble. Python strings are modelled as \<^typ>\<open>string\<close>, every \<^typ>\<open>char\<close> standing for
  the code point of the same number (0 to 255); Python integers are \<^typ>\<open>int\<close>; the
  dictionary \<^verbatim>\<open>counts\<close> is an association list in insertion order, which is the order
  in which a Python dictionary is iterated.
\<close>

subsection \<open>The Python built-ins the source calls\<close>

text \<open>
  \<^verbatim>\<open>str.split()\<close> without argument separates at the characters for which
  \<^verbatim>\<open>str.isspace\<close> holds: tab to carriage return, the four separators 28 to 31, the
  space, NEL (133) and the no-break space (160).
\<close>

definition py_isspace :: "char \<Rightarrow> bool" where
  "py_isspace c =
     (let n = (of_char c :: nat)
      in (9 \<le> n \<and> n \<le> 13) \<or> (28 \<le> n \<and> n \<le> 32) \<or> n = 133 \<or> n = 160)"

text \<open>
  \<^verbatim>\<open>str.lower()\<close> on code points below 256: the letters A to Z and the letters 192 to
  222 (the multiplication sign 215 left out) move up by 32, all others stay.
\<close>

definition py_lower_char :: "char \<Rightarrow> char" where
  "py_lower_char c =
     (let n = (of_char c :: nat)
      in if (65 \<le> n \<and> n \<le> 90) \<or> (192 \<le> n \<and> n \<le> 222 \<and> n \<noteq> 215)
         then char_of (n + 32) else c)"

definition py_lower :: "string \<Rightarrow> string" where
  "py_lower s = map py_lower_char s"

text \<open>
  \<^verbatim>\<open>s.split()\<close>: one scan from the left; \<open>cur\<close> is the word being read, closed at
  a whitespace character or at the end of the string, and never emitted when empty.
\<close>

fun split_scan :: "string \<Rightarrow> string \<Rightarrow> string list" where
  "split_scan cur [] = (if cur = [] then [] else [cur])"
| "split_scan cur (c # cs) =
     (if py_isspace c
      then (if cur = [] then split_scan [] cs else cur # split_scan [] cs)
      else split_scan (cur @ [c]) cs)"

definition py_split :: "string \<Rightarrow> string list" where
  "py_split s = split_scan [] s"

text \<open>
  \<^verbatim>\<open>s.strip(chars)\<close>: advance from the left over the members of \<open>chars\<close>, then
  retreat from the right over them, and return what lies between.
\<close>

definition py_strip :: "string \<Rightarrow> string \<Rightarrow> string" where
  "py_strip s chars =
     rev (dropWhile (\<lambda>c. c \<in> set chars) (rev (dropWhile (\<lambda>c. c \<in> set chars) s)))"

text \<open>
  A dictionary with string keys, in insertion order. \<^verbatim>\<open>d.get(k, default)\<close> and
  \<^verbatim>\<open>d[k] = v\<close>: the assignment keeps the position of a key already present and
  appends a new key at the end.
\<close>

type_synonym pydict = "(string \<times> int) list"

fun dict_get :: "pydict \<Rightarrow> string \<Rightarrow> int \<Rightarrow> int" where
  "dict_get [] k dflt = dflt"
| "dict_get ((k', v') # kvs) k dflt = (if k' = k then v' else dict_get kvs k dflt)"

fun dict_set :: "pydict \<Rightarrow> string \<Rightarrow> int \<Rightarrow> pydict" where
  "dict_set [] k v = [(k, v)]"
| "dict_set ((k', v') # kvs) k v =
     (if k' = k then (k', v) # kvs else (k', v') # dict_set kvs k v)"

text \<open>
  \<^verbatim>\<open>sorted(xs, key=f, reverse=True)\<close>: the list is reversed, sorted by a stable
  ascending sort, and reversed again, so that elements of equal key keep the order they
  had in \<open>xs\<close>.
\<close>

definition py_sorted_reverse :: "('a \<Rightarrow> int) \<Rightarrow> 'a list \<Rightarrow> 'a list" where
  "py_sorted_reverse f xs = rev (sort_key f (rev xs))"

text \<open>
  The slice \<^verbatim>\<open>xs[:stop]\<close>: a negative \<open>stop\<close> counts from the end, and the bound is
  then clipped to the range from 0 to the length.
\<close>

definition py_slice_to :: "'a list \<Rightarrow> int \<Rightarrow> 'a list" where
  "py_slice_to xs stop =
     (let n = int (length xs);
          stop' = (if stop < 0 then max 0 (stop + n) else min stop n)
      in take (nat stop') xs)"

subsection \<open>Configuration and result\<close>

record config =
  stopwords :: "string list"
  punctuation :: string
  top_n :: int
  bar_char :: string
  word_width :: int
  count_width :: int

definition CONFIG :: config where
  "CONFIG = \<lparr> stopwords = [''the'', ''a'', ''an'', ''and'', ''or'', ''but'', ''in'', ''on'',
                            ''at'', ''to'', ''for'', ''of'', ''is'', ''was'', ''are'', ''were'',
                            ''be'', ''been'', ''with''],
              punctuation = [CHR ''.'', CHR '','', CHR ''!'', CHR ''?'', CHR '';'', CHR '':'',
                             CHR 0x22, CHR ''('', CHR '')'', CHR ''['', CHR '']''],
              top_n = 10,
              bar_char = ''*'',
              word_width = 15,
              count_width = 3 \<rparr>"

record result =
  counts :: pydict
  top_words :: "(string \<times> int) list"
  total_words :: int
  unique_words :: int

subsection \<open>The model functions\<close>

definition clean_word :: "string \<Rightarrow> string \<Rightarrow> string" where
  "clean_word word punct = py_strip word punct"

definition normalize_text :: "string \<Rightarrow> string list" where
  "normalize_text text = py_split (py_lower text)"

definition filter_stopwords :: "string list \<Rightarrow> string list \<Rightarrow> string list" where
  "filter_stopwords words sw = [word \<leftarrow> words. word \<noteq> [] \<and> word \<notin> set sw]"

text \<open>The loop of \<^verbatim>\<open>count_word_frequencies\<close>, the dictionary passed along.\<close>

fun count_loop :: "string list \<Rightarrow> pydict \<Rightarrow> pydict" where
  "count_loop [] d = d"
| "count_loop (word # words) d =
     count_loop words (dict_set d word (dict_get d word 0 + 1))"

definition count_word_frequencies :: "string list \<Rightarrow> pydict" where
  "count_word_frequencies words = count_loop words []"

definition sort_words_by_frequency :: "pydict \<Rightarrow> (string \<times> int) list" where
  "sort_words_by_frequency d = py_sorted_reverse snd d"

definition get_top_words :: "(string \<times> int) list \<Rightarrow> int \<Rightarrow> (string \<times> int) list" where
  "get_top_words sorted_words n = py_slice_to sorted_words n"

text \<open>The loop of \<^verbatim>\<open>clean_all_words\<close>, the list \<^verbatim>\<open>cleaned_words\<close> passed along.\<close>

fun clean_loop :: "string list \<Rightarrow> string \<Rightarrow> string list \<Rightarrow> string list" where
  "clean_loop [] punct cleaned_words = cleaned_words"
| "clean_loop (word # words) punct cleaned_words =
     (let cleaned = clean_word word punct
      in if cleaned \<noteq> [] then clean_loop words punct (cleaned_words @ [cleaned])
         else clean_loop words punct cleaned_words)"

definition clean_all_words :: "string list \<Rightarrow> string \<Rightarrow> string list" where
  "clean_all_words words punct = clean_loop words punct []"

definition build_result_dict :: "pydict \<Rightarrow> (string \<times> int) list \<Rightarrow> result" where
  "build_result_dict d tw =
     \<lparr> counts = d,
       top_words = tw,
       total_words = sum_list (map snd d),
       unique_words = int (length d) \<rparr>"

definition process_text :: "string \<Rightarrow> config \<Rightarrow> result" where
  "process_text text cfg =
     (let words = normalize_text text;
          cleaned_words = clean_all_words words (punctuation cfg);
          filtered_words = filter_stopwords cleaned_words (stopwords cfg);
          d = count_word_frequencies filtered_words;
          sorted_words = sort_words_by_frequency d;
          tw = get_top_words sorted_words (top_n cfg)
      in build_result_dict d tw)"

text \<open>
  The intermediate values of \<^const>\<open>process_text\<close> that the properties below speak of:
  the tokens after cleaning, and the tokens left after stopword filtering.
\<close>

definition tokens :: "string \<Rightarrow> config \<Rightarrow> string list" where
  "tokens text cfg = clean_all_words (normalize_text text) (punctuation cfg)"

definition filtered_tokens :: "string \<Rightarrow> config \<Rightarrow> string list" where
  "filtered_tokens text cfg = filter_stopwords (tokens text cfg) (stopwords cfg)"

text \<open>The position of the first occurrence of \<open>x\<close> in a list (its length when absent).\<close>

definition first_index :: "'a list \<Rightarrow> 'a \<Rightarrow> nat" where
  "first_index xs x = length (takeWhile (\<lambda>y. y \<noteq> x) xs)"

subsection \<open>The tokenizer as the specification words it\<close>

text \<open>
  Stripping the edges of a word: the trailing members of the strip set go first, then the
  leading ones.
\<close>

definition strip_edges :: "string \<Rightarrow> string \<Rightarrow> string" where
  "strip_edges w p =
     dropWhile (\<lambda>c. c \<in> set p) (rev (dropWhile (\<lambda>c. c \<in> set p) (rev w)))"

text \<open>
  Splitting on whitespace runs: skip a run of whitespace, take the longest run of other
  characters as a word, and go on with what follows it.
\<close>

function split_whitespace :: "string \<Rightarrow> string list" where
  "split_whitespace s =
     (case dropWhile py_isspace s of
        [] \<Rightarrow> []
      | c # cs \<Rightarrow> takeWhile (\<lambda>x. \<not> py_isspace x) (c # cs)
                 # split_whitespace (dropWhile (\<lambda>x. \<not> py_isspace x) (c # cs)))"
  by pat_completeness auto
termination
proof (relation "measure length")
  show "wf (measure length)"
    by simp
next
  fix s :: string and c cs
  assume d: "dropWhile py_isspace s = c # cs"
  then have "\<not> py_isspace c"
    using hd_dropWhile [of py_isspace s] by simp
  then have "dropWhile (\<lambda>x. \<not> py_isspace x) (c # cs) = dropWhile (\<lambda>x. \<not> py_isspace x) cs"
    by simp
  moreover have "length (dropWhile (\<lambda>x. \<not> py_isspace x) cs) \<le> length cs"
    by (rule length_dropWhile_le)
  moreover have "length (c # cs) \<le> length s"
    using length_dropWhile_le [of py_isspace s] d by simp
  ultimately show "(dropWhile (\<lambda>x. \<not> py_isspace x) (c # cs), s) \<in> measure length"
    by simp
qed

declare split_whitespace.simps [simp del]

text \<open>
  Lowercase the text, split it on whitespace runs, strip the edges of every word, and
  discard the words that have become empty.
\<close>

definition tokenize_spec :: "string \<Rightarrow> string \<Rightarrow> string list" where
  "tokenize_spec text p =
     [t \<leftarrow> map (\<lambda>w. strip_edges w p) (split_whitespace (py_lower text)). t \<noteq> []]"

text \<open>The distinct elements of a list, each at the place of its first occurrence.\<close>

fun first_occurrences :: "'a list \<Rightarrow> 'a list" where
  "first_occurrences [] = []"
| "first_occurrences (x # xs) = x # filter (\<lambda>y. y \<noteq> x) (first_occurrences xs)"

section \<open>Properties\<close>

subsection \<open>The pipeline unfolded\<close>


lemma process_text_unfold:
  "process_text text cfg =
     build_result_dict (count_word_frequencies (filtered_tokens text cfg))
       (get_top_words (sort_words_by_frequency (count_word_frequencies (filtered_tokens text cfg)))
          (top_n cfg))"
  by (simp add: process_text_def filtered_tokens_def tokens_def Let_def)

lemma keys_dict_set:
  "map fst (dict_set d k v) = (if k \<in> fst ` set d then map fst d else map fst d @ [k])"
  by (induction d) force+

lemma sum_dict_set:
  "sum_list (map snd (dict_set d k (dict_get d k 0 + 1))) = sum_list (map snd d) + 1"
  by (induction d) auto

lemma distinct_dict_set:
  "distinct (map fst d) \<Longrightarrow> distinct (map fst (dict_set d k v))"
  by (simp add: keys_dict_set)

lemma sum_count_loop:
  "sum_list (map snd (count_loop ws d)) = sum_list (map snd d) + int (length ws)"
  by (induction ws arbitrary: d) (simp_all add: sum_dict_set)

lemma distinct_count_loop:
  "distinct (map fst d) \<Longrightarrow> distinct (map fst (count_loop ws d))"
  by (induction ws arbitrary: d) (simp_all add: distinct_dict_set)

lemma keys_count_loop:
  "fst ` set (count_loop ws d) = fst ` set d \<union> set ws"
proof (induction ws arbitrary: d)
  case Nil
  show ?case by simp
next
  case (Cons w ws)
  have "set (map fst (dict_set d w (dict_get d w 0 + 1))) = insert w (fst ` set d)"
    unfolding keys_dict_set by auto
  then have "fst ` set (dict_set d w (dict_get d w 0 + 1)) = insert w (fst ` set d)"
    by simp
  with Cons.IH [of "dict_set d w (dict_get d w 0 + 1)"] show ?case
    by auto
qed

lemma distinct_count_word_frequencies: "distinct (map fst (count_word_frequencies ws))"
  by (simp add: count_word_frequencies_def distinct_count_loop)

lemma keys_count_word_frequencies: "fst ` set (count_word_frequencies ws) = set ws"
  by (simp add: count_word_frequencies_def keys_count_loop)

lemma sum_count_word_frequencies:
  "sum_list (map snd (count_word_frequencies ws)) = int (length ws)"
  by (simp add: count_word_frequencies_def sum_count_loop)


subsection \<open>Totals of the result\<close>

text \<open>
  Claim C1. For every text and configuration, \<^verbatim>\<open>total_words\<close> of the result is the
  number of tokens left after stopword filtering, it is the sum of the values of
  \<^verbatim>\<open>counts\<close>, and \<^verbatim>\<open>unique_words\<close> is the number of distinct keys of \<^verbatim>\<open>counts\<close>.
\<close>

theorem process_text_totals:
  "total_words (process_text text cfg) = int (length (filtered_tokens text cfg)) \<and>
   total_words (process_text text cfg) = sum_list (map snd (counts (process_text text cfg))) \<and>
   unique_words (process_text text cfg) = int (card (fst ` set (counts (process_text text cfg))))"
proof -
  let ?d = "count_word_frequencies (filtered_tokens text cfg)"
  have "card (fst ` set ?d) = length ?d"
    using distinct_card [OF distinct_count_word_frequencies [of "filtered_tokens text cfg"]]
    by simp
  then show ?thesis
    by (simp add: process_text_unfold build_result_dict_def sum_count_word_frequencies)
qed

subsection \<open>Stopwords\<close>

text \<open>
  Claim C5. For every text and configuration, no member of the configured stopword list
  is a key of \<^verbatim>\<open>counts\<close> in the result of \<^verbatim>\<open>process_text\<close>.
\<close>

theorem stopwords_not_counted:
  "\<forall>s \<in> set (stopwords cfg). s \<notin> fst ` set (counts (process_text text cfg))"
  by (simp add: process_text_unfold build_result_dict_def keys_count_word_frequencies
      filtered_tokens_def filter_stopwords_def)

theorem stopwords_not_counted_witness:
  "''the'' \<in> set (stopwords CONFIG) \<and>
   ''cat'' \<in> fst ` set (counts (process_text ''the cat'' CONFIG)) \<and>
   ''the'' \<notin> fst ` set (counts (process_text ''the cat'' CONFIG))"
proof -
  have h: "''the'' \<in> set (stopwords CONFIG)"
    by code_simp
  have k: "''cat'' \<in> fst ` set (counts (process_text ''the cat'' CONFIG))"
    by code_simp
  from stopwords_not_counted [of CONFIG "''the cat''"] h k show ?thesis
    by blast
qed

subsection \<open>Sorting and truncation\<close>


lemma set_py_sorted_reverse: "set (py_sorted_reverse f xs) = set xs"
  by (simp add: py_sorted_reverse_def)

lemma mset_py_sorted_reverse: "mset (py_sorted_reverse f xs) = mset xs"
  by (simp add: py_sorted_reverse_def)

lemma length_py_sorted_reverse: "length (py_sorted_reverse f xs) = length xs"
  by (simp add: py_sorted_reverse_def)

lemma py_sorted_reverse_descending:
  "sorted_wrt (\<lambda>a b. f b \<le> f a) (py_sorted_reverse f xs)"
proof -
  have "sorted_wrt (\<lambda>a b. f a \<le> f b) (sort_key f (rev xs))"
    using sorted_sort_key [of f "rev xs"] by (simp add: sorted_wrt_map)
  then show ?thesis
    by (simp add: py_sorted_reverse_def sorted_wrt_rev)
qed

lemma py_sorted_reverse_stable:
  "filter (\<lambda>y. f y = k) (py_sorted_reverse f xs) = filter (\<lambda>y. f y = k) xs"
  by (simp add: py_sorted_reverse_def sort_key_stable flip: rev_filter)

lemma py_sorted_reverse_sort_key:
  "py_sorted_reverse f xs = sort_key (\<lambda>x. - f x) xs"
proof (rule sym, rule properties_for_sort_key)
  show "mset (py_sorted_reverse f xs) = mset xs"
    by (rule mset_py_sorted_reverse)
next
  fix k
  assume "k \<in> set (py_sorted_reverse f xs)"
  have "filter (\<lambda>x. f x = f k) (py_sorted_reverse f xs) = filter (\<lambda>x. f x = f k) xs"
    by (rule py_sorted_reverse_stable)
  moreover have "(\<lambda>x. - f k = - f x) = (\<lambda>x. f x = f k)"
    by auto
  ultimately show "filter (\<lambda>x. - f k = - f x) (py_sorted_reverse f xs) = filter (\<lambda>x. - f k = - f x) xs"
    by simp
next
  have "sorted_wrt (\<lambda>a b. - f a \<le> - f b) (py_sorted_reverse f xs)"
    using py_sorted_reverse_descending [of f xs] by simp
  then show "sorted (map (\<lambda>x. - f x) (py_sorted_reverse f xs))"
    by (simp add: sorted_wrt_map)
qed

lemma py_slice_to_take:
  "py_slice_to xs n = take (nat (if n < 0 then max 0 (n + int (length xs)) else min n (int (length xs)))) xs"
  by (simp add: py_slice_to_def Let_def)

lemma py_slice_to_prefix: "\<exists>m. py_slice_to xs n = take m xs"
  unfolding py_slice_to_take by blast

lemma prefix_of_descending:
  assumes "sorted_wrt (\<lambda>a b. f b \<le> f a) xs"
  shows "sorted_wrt (\<lambda>a b. f b \<le> f a) (take m xs)"
    and "\<forall>e \<in> set xs. e \<notin> set (take m xs) \<longrightarrow> (\<forall>t \<in> set (take m xs). f e \<le> f t)"
proof -
  have split: "xs = take m xs @ drop m xs"
    by simp
  from assms have s: "sorted_wrt (\<lambda>a b. f b \<le> f a) (take m xs @ drop m xs)"
    by simp
  then show "sorted_wrt (\<lambda>a b. f b \<le> f a) (take m xs)"
    unfolding sorted_wrt_append by blast
  from s have cross: "\<forall>t \<in> set (take m xs). \<forall>e \<in> set (drop m xs). f e \<le> f t"
    unfolding sorted_wrt_append by blast
  show "\<forall>e \<in> set xs. e \<notin> set (take m xs) \<longrightarrow> (\<forall>t \<in> set (take m xs). f e \<le> f t)"
  proof (intro ballI impI)
    fix e t
    assume "e \<in> set xs" and "e \<notin> set (take m xs)" and t: "t \<in> set (take m xs)"
    then have "e \<in> set (drop m xs)"
      using split by (metis Un_iff set_append)
    with cross t show "f e \<le> f t"
      by blast
  qed
qed


text \<open>
  Claim C3. For every text and configuration, \<^verbatim>\<open>top_words\<close> is sorted by count
  non-increasing, and no pair of \<^verbatim>\<open>counts\<close> that is absent from \<^verbatim>\<open>top_words\<close> has a
  count greater than the minimum count in \<^verbatim>\<open>top_words\<close>.
\<close>

theorem ranked_list_correct:
  "sorted_wrt (\<lambda>a b. snd b \<le> snd a) (top_words (process_text text cfg)) \<and>
   (\<forall>e \<in> set (counts (process_text text cfg)).
      e \<notin> set (top_words (process_text text cfg)) \<and> top_words (process_text text cfg) \<noteq> [] \<longrightarrow>
      snd e \<le> Min (snd ` set (top_words (process_text text cfg))))"
proof -
  let ?d = "count_word_frequencies (filtered_tokens text cfg)"
  let ?s = "sort_words_by_frequency ?d"
  obtain m where top: "top_words (process_text text cfg) = take m ?s"
    using py_slice_to_prefix [of ?s "top_n cfg"]
    by (auto simp: process_text_unfold build_result_dict_def get_top_words_def)
  have cnt: "counts (process_text text cfg) = ?d"
    by (simp add: process_text_unfold build_result_dict_def)
  have desc: "sorted_wrt (\<lambda>a b. snd b \<le> snd a) ?s"
    unfolding sort_words_by_frequency_def by (rule py_sorted_reverse_descending)
  have same: "set ?s = set ?d"
    by (simp add: sort_words_by_frequency_def set_py_sorted_reverse)
  note pre = prefix_of_descending [OF desc, of m]
  have "\<forall>e \<in> set ?d. e \<notin> set (take m ?s) \<and> take m ?s \<noteq> [] \<longrightarrow>
          snd e \<le> Min (snd ` set (take m ?s))"
  proof (intro ballI impI)
    fix e
    assume e: "e \<in> set ?d" and h: "e \<notin> set (take m ?s) \<and> take m ?s \<noteq> []"
    then have "\<forall>t \<in> set (take m ?s). snd e \<le> snd t"
      using pre(2) same by blast
    moreover have "finite (snd ` set (take m ?s))" "snd ` set (take m ?s) \<noteq> {}"
      using h by simp_all
    ultimately show "snd e \<le> Min (snd ` set (take m ?s))"
      by simp
  qed
  with pre(1) show ?thesis
    unfolding top cnt by blast
qed

theorem ranked_list_correct_witness:
  "(''dog'', 1) \<in> set (counts (process_text ''dog cat cat'' (CONFIG\<lparr>top_n := 1\<rparr>))) \<and>
   (''dog'', 1) \<notin> set (top_words (process_text ''dog cat cat'' (CONFIG\<lparr>top_n := 1\<rparr>))) \<and>
   top_words (process_text ''dog cat cat'' (CONFIG\<lparr>top_n := 1\<rparr>)) \<noteq> [] \<and>
   snd (''dog'', 1::int) \<le> Min (snd ` set (top_words (process_text ''dog cat cat'' (CONFIG\<lparr>top_n := 1\<rparr>))))"
proof -
  have h: "(''dog'', 1) \<in> set (counts (process_text ''dog cat cat'' (CONFIG\<lparr>top_n := 1\<rparr>))) \<and>
    (''dog'', 1) \<notin> set (top_words (process_text ''dog cat cat'' (CONFIG\<lparr>top_n := 1\<rparr>))) \<and>
    top_words (process_text ''dog cat cat'' (CONFIG\<lparr>top_n := 1\<rparr>)) \<noteq> []"
    by code_simp
  from ranked_list_correct [of "''dog cat cat''" "CONFIG\<lparr>top_n := 1\<rparr>"] h show ?thesis
    by blast
qed

text \<open>
  Claim C6. For every text and every configuration whose limit is positive, the length of
  \<^verbatim>\<open>top_words\<close> is at most the limit and at most \<^verbatim>\<open>unique_words\<close>; when there are
  fewer distinct tokens than the limit, \<^verbatim>\<open>top_words\<close> is the whole sorted list, one entry
  per key of \<^verbatim>\<open>counts\<close> and nothing more.
\<close>

theorem ranked_list_length:
  assumes "0 < top_n cfg"
  shows "int (length (top_words (process_text text cfg))) \<le> top_n cfg \<and>
         int (length (top_words (process_text text cfg))) \<le> unique_words (process_text text cfg) \<and>
         (unique_words (process_text text cfg) < top_n cfg \<longrightarrow>
            top_words (process_text text cfg) =
              sort_words_by_frequency (counts (process_text text cfg)) \<and>
            int (length (top_words (process_text text cfg))) = unique_words (process_text text cfg) \<and>
            set (top_words (process_text text cfg)) = set (counts (process_text text cfg)))"
  using assms
  by (simp add: process_text_unfold build_result_dict_def get_top_words_def py_slice_to_take
      sort_words_by_frequency_def length_py_sorted_reverse set_py_sorted_reverse)

theorem ranked_list_length_witness:
  "0 < top_n CONFIG \<and>
   unique_words (process_text ''dog cat cat'' CONFIG) < top_n CONFIG \<and>
   top_words (process_text ''dog cat cat'' CONFIG) = [(''cat'', 2), (''dog'', 1)] \<and>
   int (length (top_words (process_text ''dog cat cat'' CONFIG))) \<le> top_n CONFIG"
proof -
  have h: "0 < top_n CONFIG"
    by code_simp
  have k: "top_words (process_text ''dog cat cat'' CONFIG) = [(''cat'', 2), (''dog'', 1)]"
    by code_simp
  have u: "unique_words (process_text ''dog cat cat'' CONFIG) < top_n CONFIG"
    by code_simp
  from ranked_list_length [OF h, of "''dog cat cat''"] h k u show ?thesis
    by blast
qed

text \<open>
  Claim C10. For every list of pairs and every negative limit \<open>- k\<close>,
  \<^verbatim>\<open>get_top_words\<close> returns the list without its last \<open>k\<close> entries, which is the empty
  list when \<open>k\<close> is at least the length; the function has no failing branch.
\<close>

theorem get_top_words_negative:
  assumes "0 < k"
  shows "get_top_words xs (- int k) = rev (drop k (rev xs)) \<and>
         get_top_words xs (- int k) = take (length xs - k) xs \<and>
         (length xs \<le> k \<longrightarrow> get_top_words xs (- int k) = [])"
proof -
  have "nat (max 0 (int (length xs) - int k)) = length xs - k"
    by simp
  with assms have t: "get_top_words xs (- int k) = take (length xs - k) xs"
    by (simp add: get_top_words_def py_slice_to_take)
  moreover have "rev (drop k (rev xs)) = take (length xs - k) xs"
    by (simp add: rev_drop)
  ultimately show ?thesis
    by simp
qed

theorem get_top_words_negative_witness:
  "0 < (2::nat) \<and>
   get_top_words [(''cat'', 3), (''dog'', 2), (''owl'', 1)] (- int 2) = [(''cat'', 3)] \<and>
   length [(''cat'', 3::int), (''dog'', 2), (''owl'', 1)] \<le> 3 \<and>
   get_top_words [(''cat'', 3), (''dog'', 2), (''owl'', 1)] (- int 3) = []"
proof -
  have h: "0 < (2::nat)" "0 < (3::nat)"
    by simp_all
  have l: "length [(''cat'', 3::int), (''dog'', 2), (''owl'', 1)] \<le> 3"
    by simp
  from get_top_words_negative [OF h(1), of "[(''cat'', 3), (''dog'', 2), (''owl'', 1)]"]
    get_top_words_negative [OF h(2), of "[(''cat'', 3), (''dog'', 2), (''owl'', 1)]"] l
  show ?thesis
    by simp
qed

subsection \<open>Scenarios and empty input\<close>

lemma process_text_no_tokens:
  assumes "filtered_tokens text cfg = []"
  shows "process_text text cfg =
           \<lparr>counts = [], top_words = [], total_words = 0, unique_words = 0\<rparr>"
  using assms
  by (simp add: process_text_unfold build_result_dict_def count_word_frequencies_def
      sort_words_by_frequency_def py_sorted_reverse_def get_top_words_def py_slice_to_def)

lemma filtered_tokens_empty_text: "filtered_tokens [] cfg = []"
  by (simp add: filtered_tokens_def tokens_def normalize_text_def py_lower_def py_split_def
      clean_all_words_def filter_stopwords_def)

lemma filtered_tokens_only_stopwords:
  "set (tokens text cfg) \<subseteq> set (stopwords cfg) \<Longrightarrow> filtered_tokens text cfg = []"
  by (auto simp: filtered_tokens_def filter_stopwords_def filter_empty_conv)

text \<open>
  Claim C2. With the default configuration (punctuation \<^verbatim>\<open>.,!?;:"()[]\<close>, limit 10,
  stopwords containing "the" and "on"), the text "The cat sat on the mat. The cat ran."
  gives the filtered tokens cat, sat, mat, cat, ran, the counts cat 2, sat 1, mat 1,
  ran 1, \<^verbatim>\<open>total_words\<close> 5, \<^verbatim>\<open>unique_words\<close> 4, and (cat, 2) as first entry of
  \<^verbatim>\<open>top_words\<close>.
\<close>

theorem scenario_cat:
  "punctuation CONFIG = ''.,!?;:'' @ [CHR 0x22] @ ''()[]'' \<and>
   top_n CONFIG = 10 \<and>
   ''the'' \<in> set (stopwords CONFIG) \<and> ''on'' \<in> set (stopwords CONFIG) \<and>
   filtered_tokens ''The cat sat on the mat. The cat ran.'' CONFIG =
     [''cat'', ''sat'', ''mat'', ''cat'', ''ran''] \<and>
   counts (process_text ''The cat sat on the mat. The cat ran.'' CONFIG) =
     [(''cat'', 2), (''sat'', 1), (''mat'', 1), (''ran'', 1)] \<and>
   total_words (process_text ''The cat sat on the mat. The cat ran.'' CONFIG) = 5 \<and>
   unique_words (process_text ''The cat sat on the mat. The cat ran.'' CONFIG) = 4 \<and>
   top_words (process_text ''The cat sat on the mat. The cat ran.'' CONFIG) =
     [(''cat'', 2), (''sat'', 1), (''mat'', 1), (''ran'', 1)] \<and>
   hd (top_words (process_text ''The cat sat on the mat. The cat ran.'' CONFIG)) = (''cat'', 2)"
  by code_simp

text \<open>
  Claim C7. Zero tokens after filtering is not an error: for the empty text, for the text
  "the a an" under the default configuration, and for every text all of whose tokens are
  configured stopwords, \<^verbatim>\<open>process_text\<close> returns the result with empty \<^verbatim>\<open>counts\<close>,
  empty \<^verbatim>\<open>top_words\<close> and both totals 0.
\<close>

theorem zero_tokens_no_error:
  "process_text [] cfg = \<lparr>counts = [], top_words = [], total_words = 0, unique_words = 0\<rparr> \<and>
   process_text ''the a an'' CONFIG =
     \<lparr>counts = [], top_words = [], total_words = 0, unique_words = 0\<rparr> \<and>
   (set (tokens text cfg) \<subseteq> set (stopwords cfg) \<longrightarrow>
      process_text text cfg =
        \<lparr>counts = [], top_words = [], total_words = 0, unique_words = 0\<rparr>)"
proof -
  have "process_text ''the a an'' CONFIG =
     \<lparr>counts = [], top_words = [], total_words = 0, unique_words = 0\<rparr>"
    by code_simp
  then show ?thesis
    by (simp add: process_text_no_tokens filtered_tokens_empty_text
        filtered_tokens_only_stopwords)
qed

theorem zero_tokens_no_error_witness:
  "tokens ''The, AN (a).'' CONFIG = [''the'', ''an'', ''a''] \<and>
   set (tokens ''The, AN (a).'' CONFIG) \<subseteq> set (stopwords CONFIG) \<and>
   process_text ''The, AN (a).'' CONFIG =
     \<lparr>counts = [], top_words = [], total_words = 0, unique_words = 0\<rparr>"
proof -
  have t: "tokens ''The, AN (a).'' CONFIG = [''the'', ''an'', ''a'']"
    by code_simp
  have h: "set (tokens ''The, AN (a).'' CONFIG) \<subseteq> set (stopwords CONFIG)"
    by code_simp
  from zero_tokens_no_error [of CONFIG "''The, AN (a).''"] t h show ?thesis
    by blast
qed

subsection \<open>The tokenizer\<close>

lemma clean_loop_filter_map:
  "clean_loop ws p acc = acc @ [t \<leftarrow> map (\<lambda>w. clean_word w p) ws. t \<noteq> []]"
  by (induction ws arbitrary: acc) (simp_all add: Let_def)

lemma strip_both_orders:
  "rev (dropWhile P (rev (dropWhile P xs))) = dropWhile P (rev (dropWhile P (rev xs)))"
proof (cases "dropWhile P xs")
  case Nil
  then have "\<forall>x \<in> set xs. P x"
    by (simp add: dropWhile_eq_Nil_conv)
  then have r: "dropWhile P (rev xs) = []"
    by (simp add: dropWhile_eq_Nil_conv)
  show ?thesis
    unfolding Nil r by simp
next
  case (Cons c b)
  then have nc: "\<not> P c"
    using hd_dropWhile [of P xs] by simp
  have xs: "xs = takeWhile P xs @ c # b"
    using takeWhile_dropWhile_id [of P xs] unfolding Cons by simp
  define a where "a = takeWhile P xs"
  have a: "\<forall>x \<in> set a. P x"
    unfolding a_def by (auto dest: set_takeWhileD)
  have xa: "xs = a @ c # b"
    using xs unfolding a_def .
  have "dropWhile P (rev b @ [c]) = dropWhile P (rev b) @ [c]"
    using nc by (rule dropWhile_append3)
  then have left: "rev (dropWhile P (rev (dropWhile P xs))) = c # rev (dropWhile P (rev b))"
    unfolding Cons by simp
  have "dropWhile P (rev b @ c # rev a) = dropWhile P (rev b) @ c # rev a"
    using nc by (rule dropWhile_append3)
  then have "rev (dropWhile P (rev xs)) = a @ c # rev (dropWhile P (rev b))"
    by (simp add: xa)
  moreover have "dropWhile P (a @ c # rev (dropWhile P (rev b))) = c # rev (dropWhile P (rev b))"
    using a nc by (simp add: dropWhile_append2)
  ultimately show ?thesis
    using left by simp
qed

lemma split_scan_word:
  "cur \<noteq> [] \<Longrightarrow>
   split_scan cur s =
     (cur @ takeWhile (\<lambda>x. \<not> py_isspace x) s) # split_scan [] (dropWhile (\<lambda>x. \<not> py_isspace x) s)"
  by (induction s arbitrary: cur) simp_all

lemma split_scan_skip: "split_scan [] s = split_scan [] (dropWhile py_isspace s)"
  by (induction s) simp_all

lemma py_split_eq_split_whitespace: "py_split s = split_whitespace s"
proof (induction s rule: split_whitespace.induct)
  case (1 s)
  show ?case
  proof (cases "dropWhile py_isspace s")
    case Nil
    have "split_whitespace s = []"
      by (subst split_whitespace.simps) (simp only: Nil list.case)
    moreover have "split_scan [] (dropWhile py_isspace s) = []"
      unfolding Nil by simp
    then have "py_split s = []"
      using split_scan_skip [of s] by (simp only: py_split_def)
    ultimately show ?thesis
      by simp
  next
    case (Cons c cs)
    then have nc: "\<not> py_isspace c"
      using hd_dropWhile [of py_isspace s] by simp
    have "py_split s = split_scan [] (c # cs)"
      using split_scan_skip [of s] unfolding Cons by (simp only: py_split_def)
    also have "\<dots> = split_scan [c] cs"
      using nc by simp
    also have "\<dots> = ([c] @ takeWhile (\<lambda>x. \<not> py_isspace x) cs)
                     # py_split (dropWhile (\<lambda>x. \<not> py_isspace x) cs)"
      by (simp add: split_scan_word py_split_def)
    also have "\<dots> = takeWhile (\<lambda>x. \<not> py_isspace x) (c # cs)
                     # py_split (dropWhile (\<lambda>x. \<not> py_isspace x) (c # cs))"
      using nc by simp
    finally have "py_split s = takeWhile (\<lambda>x. \<not> py_isspace x) (c # cs)
                     # split_whitespace (dropWhile (\<lambda>x. \<not> py_isspace x) (c # cs))"
      using "1.IH" [OF Cons] by simp
    moreover have "split_whitespace s = takeWhile (\<lambda>x. \<not> py_isspace x) (c # cs)
                     # split_whitespace (dropWhile (\<lambda>x. \<not> py_isspace x) (c # cs))"
      by (subst split_whitespace.simps) (simp only: Cons list.case)
    ultimately show ?thesis
      by simp
  qed
qed

lemma py_strip_eq_strip_edges: "py_strip w p = strip_edges w p"
  unfolding py_strip_def strip_edges_def by (rule strip_both_orders)

lemma tokens_eq_tokenize_spec: "tokens text cfg = tokenize_spec text (punctuation cfg)"
  by (simp add: tokens_def tokenize_spec_def clean_all_words_def clean_loop_filter_map
      normalize_text_def clean_word_def py_strip_eq_strip_edges py_split_eq_split_whitespace)

lemma py_strip_edges:
  assumes "py_strip w p \<noteq> []"
  shows "hd (py_strip w p) \<notin> set p" and "last (py_strip w p) \<notin> set p"
proof -
  let ?P = "\<lambda>c. c \<in> set p"
  have f: "py_strip w p = dropWhile ?P (rev (dropWhile ?P (rev w)))"
    unfolding py_strip_def by (rule strip_both_orders)
  have "dropWhile ?P (rev (dropWhile ?P (rev w))) \<noteq> []"
    using assms unfolding f .
  then have "\<not> ?P (hd (dropWhile ?P (rev (dropWhile ?P (rev w)))))"
    by (rule hd_dropWhile)
  then show "hd (py_strip w p) \<notin> set p"
    unfolding f .
  have r: "rev (py_strip w p) = dropWhile ?P (rev (dropWhile ?P w))"
    unfolding py_strip_def by (rule rev_rev_ident)
  have "rev (py_strip w p) \<noteq> []"
    using assms by simp
  then have "dropWhile ?P (rev (dropWhile ?P w)) \<noteq> []"
    unfolding r .
  then have "\<not> ?P (hd (dropWhile ?P (rev (dropWhile ?P w))))"
    by (rule hd_dropWhile)
  then have "hd (rev (py_strip w p)) \<notin> set p"
    unfolding r .
  then show "last (py_strip w p) \<notin> set p"
    using assms by (simp add: hd_rev)
qed

lemma py_strip_interior:
  "\<exists>pre suf. w = pre @ py_strip w p @ suf \<and> set pre \<subseteq> set p \<and> set suf \<subseteq> set p"
proof -
  let ?P = "\<lambda>c. c \<in> set p"
  define b where "b = dropWhile ?P w"
  define e where "e = takeWhile ?P (rev b)"
  define m where "m = dropWhile ?P (rev b)"
  have "rev b = e @ m"
    unfolding e_def m_def by simp
  then have "rev (rev b) = rev (e @ m)"
    by (rule arg_cong)
  then have b: "b = rev m @ rev e"
    by simp
  have s: "py_strip w p = rev m"
    unfolding py_strip_def m_def b_def ..
  have "w = takeWhile ?P w @ b"
    unfolding b_def by simp
  then have "w = takeWhile ?P w @ py_strip w p @ rev e"
    unfolding s using b by simp
  moreover have "set (takeWhile ?P w) \<subseteq> set p"
    by (auto dest: set_takeWhileD)
  moreover have "set (rev e) \<subseteq> set p"
    unfolding e_def by (auto dest: set_takeWhileD)
  ultimately show ?thesis
    by blast
qed

text \<open>
  Claim C4. For every text, the tokens produced by \<^verbatim>\<open>normalize_text\<close> followed by
  \<^verbatim>\<open>clean_all_words\<close> are those obtained by lowercasing the text, splitting it on
  whitespace runs, stripping the leading and trailing characters of the punctuation set
  from every word, and discarding the words that become empty, in the order of the text.
  No token is empty, no token begins or ends with a character of the punctuation set, and
  every token is a word of the lowercased text less a prefix and a suffix made of such
  characters, so that the interior of the word is kept.
\<close>

theorem tokenizer_correct:
  "tokens text cfg = tokenize_spec text (punctuation cfg) \<and>
   (\<forall>t \<in> set (tokens text cfg).
      t \<noteq> [] \<and> hd t \<notin> set (punctuation cfg) \<and> last t \<notin> set (punctuation cfg)) \<and>
   (\<forall>t \<in> set (tokens text cfg). \<exists>w \<in> set (py_split (py_lower text)). \<exists>pre suf.
      w = pre @ t @ suf \<and> set pre \<subseteq> set (punctuation cfg) \<and> set suf \<subseteq> set (punctuation cfg))"
proof -
  have member: "\<exists>w \<in> set (py_split (py_lower text)). t = py_strip w (punctuation cfg) \<and> t \<noteq> []"
    if "t \<in> set (tokens text cfg)" for t
    using that
    by (auto simp: tokens_def clean_all_words_def clean_loop_filter_map normalize_text_def
        clean_word_def)
  have edges: "t \<noteq> [] \<and> hd t \<notin> set (punctuation cfg) \<and> last t \<notin> set (punctuation cfg)"
    if "t \<in> set (tokens text cfg)" for t
    using member [OF that] py_strip_edges by blast
  have inner: "\<exists>w \<in> set (py_split (py_lower text)). \<exists>pre suf.
      w = pre @ t @ suf \<and> set pre \<subseteq> set (punctuation cfg) \<and> set suf \<subseteq> set (punctuation cfg)"
    if "t \<in> set (tokens text cfg)" for t
  proof -
    from member [OF that] obtain w where w: "w \<in> set (py_split (py_lower text))"
      and t: "t = py_strip w (punctuation cfg)"
      by blast
    from py_strip_interior [of w "punctuation cfg"] w show ?thesis
      unfolding t by blast
  qed
  from edges inner tokens_eq_tokenize_spec show ?thesis
    by blast
qed

theorem tokenizer_correct_witness:
  "tokens ''(Mat.)  x.y, !!'' CONFIG = [''mat'', ''x.y''] \<and>
   ''x.y'' \<in> set (tokens ''(Mat.)  x.y, !!'' CONFIG) \<and>
   ''x.y'' \<noteq> [] \<and>
   hd ''x.y'' \<notin> set (punctuation CONFIG) \<and> last ''x.y'' \<notin> set (punctuation CONFIG)"
proof -
  have t: "tokens ''(Mat.)  x.y, !!'' CONFIG = [''mat'', ''x.y'']"
    by code_simp
  then have m: "''x.y'' \<in> set (tokens ''(Mat.)  x.y, !!'' CONFIG)"
    by simp
  from tokenizer_correct [of "''(Mat.)  x.y, !!''" CONFIG] t m show ?thesis
    by blast
qed

subsection \<open>Order of equal counts\<close>

lemma first_index_Cons:
  "first_index (a # l) x = (if a = x then 0 else Suc (first_index l x))"
  by (simp add: first_index_def)

lemma first_index_nth: "distinct l \<Longrightarrow> i < length l \<Longrightarrow> first_index l (l ! i) = i"
proof (induction l arbitrary: i)
  case Nil
  then show ?case by simp
next
  case (Cons a l)
  show ?case
  proof (cases i)
    case 0
    then show ?thesis by (simp add: first_index_Cons)
  next
    case (Suc n)
    with Cons.prems have "n < length l" and "l ! n \<in> set l" and "a \<notin> set l" and "distinct l"
      by simp_all
    then show ?thesis
      using Cons.IH [of n] Suc by (auto simp: first_index_Cons)
  qed
qed

lemma first_index_filter:
  "P x \<Longrightarrow> P y \<Longrightarrow>
   (first_index (filter P l) x < first_index (filter P l) y) = (first_index l x < first_index l y)"
  by (induction l) (auto simp: first_index_Cons)

lemma first_index_map:
  "inj_on f (insert x (set l)) \<Longrightarrow> first_index (map f l) (f x) = first_index l x"
proof (induction l)
  case Nil
  then show ?case by (simp add: first_index_def)
next
  case (Cons a l)
  from Cons.prems have "inj_on f (insert x (set l))"
    by (rule inj_on_subset) auto
  moreover from Cons.prems have "(f a = f x) = (a = x)"
    by (auto simp: inj_on_def)
  ultimately show ?case
    using Cons.IH by (simp add: first_index_Cons)
qed

lemma first_index_first_occurrences:
  "(first_index (first_occurrences ws) x < first_index (first_occurrences ws) y) =
   (first_index ws x < first_index ws y)"
proof (induction ws)
  case Nil
  show ?case by simp
next
  case (Cons a ws)
  show ?case
  proof (cases "a = x \<or> a = y")
    case True
    then show ?thesis
      by (auto simp: first_index_Cons)
  next
    case False
    then have "x \<noteq> a" and "y \<noteq> a"
      by auto
    then have "(first_index (filter (\<lambda>z. z \<noteq> a) (first_occurrences ws)) x
                < first_index (filter (\<lambda>z. z \<noteq> a) (first_occurrences ws)) y) =
               (first_index (first_occurrences ws) x < first_index (first_occurrences ws) y)"
      by (rule first_index_filter)
    with Cons.IH False show ?thesis
      by (simp add: first_index_Cons)
  qed
qed

lemma keys_count_loop_order:
  "distinct (map fst d) \<Longrightarrow>
   map fst (count_loop ws d) =
     map fst d @ filter (\<lambda>w. w \<notin> fst ` set d) (first_occurrences ws)"
proof (induction ws arbitrary: d)
  case Nil
  show ?case by simp
next
  case (Cons w ws)
  let ?d = "dict_set d w (dict_get d w 0 + 1)"
  have dist: "distinct (map fst ?d)"
    using Cons.prems by (rule distinct_dict_set)
  note ih = Cons.IH [OF dist]
  show ?case
  proof (cases "w \<in> fst ` set d")
    case True
    then have k: "map fst ?d = map fst d"
      by (simp add: keys_dict_set)
    then have "set (map fst ?d) = set (map fst d)"
      by simp
    then have ks: "fst ` set ?d = fst ` set d"
      by simp
    have "filter (\<lambda>x. x \<notin> fst ` set d) (filter (\<lambda>y. y \<noteq> w) (first_occurrences ws)) =
          filter (\<lambda>x. x \<notin> fst ` set d) (first_occurrences ws)"
      using True by (auto intro: filter_cong)
    with ih True show ?thesis
      unfolding ks k by simp
  next
    case False
    then have k: "map fst ?d = map fst d @ [w]"
      by (simp add: keys_dict_set)
    then have "set (map fst ?d) = set (map fst d @ [w])"
      by simp
    then have ks: "fst ` set ?d = insert w (fst ` set d)"
      by simp
    have "filter (\<lambda>x. x \<notin> insert w (fst ` set d)) (first_occurrences ws) =
          filter (\<lambda>x. x \<notin> fst ` set d) (filter (\<lambda>y. y \<noteq> w) (first_occurrences ws))"
      by (auto intro: filter_cong)
    with ih False show ?thesis
      unfolding ks k by simp
  qed
qed

lemma keys_count_word_frequencies_order:
  "map fst (count_word_frequencies ws) = first_occurrences ws"
  using keys_count_loop_order [of "[]" ws] by (simp add: count_word_frequencies_def)

lemma equal_count_order:
  assumes dist: "distinct (map fst d)"
    and ij: "i < j" and j: "j < length (py_sorted_reverse snd d)"
    and eq: "snd (py_sorted_reverse snd d ! i) = snd (py_sorted_reverse snd d ! j)"
  shows "first_index (map fst d) (fst (py_sorted_reverse snd d ! i))
         < first_index (map fst d) (fst (py_sorted_reverse snd d ! j))"
proof -
  let ?s = "py_sorted_reverse snd d"
  let ?p = "?s ! i" and ?q = "?s ! j"
  let ?P = "\<lambda>y. snd y = snd ?q"
  have dd: "distinct d"
    using dist by (simp add: distinct_map)
  have "mset ?s = mset d"
    by (rule mset_py_sorted_reverse)
  then have ds: "distinct ?s"
    using dd mset_eq_imp_distinct_iff by blast
  have "first_index ?s ?p = i" and "first_index ?s ?q = j"
    using ds ij j by (simp_all add: first_index_nth)
  then have "first_index ?s ?p < first_index ?s ?q"
    using ij by simp
  moreover have "?P ?p" and "?P ?q"
    using eq by simp_all
  ultimately have "first_index (filter ?P ?s) ?p < first_index (filter ?P ?s) ?q"
    by (simp add: first_index_filter)
  then have "first_index (filter ?P d) ?p < first_index (filter ?P d) ?q"
    by (simp only: py_sorted_reverse_stable)
  then have lt: "first_index d ?p < first_index d ?q"
    using \<open>?P ?p\<close> \<open>?P ?q\<close> by (simp add: first_index_filter)
  have "?p \<in> set ?s" and "?q \<in> set ?s"
    using ij j by simp_all
  then have "?p \<in> set d" and "?q \<in> set d"
    by (simp_all add: set_py_sorted_reverse)
  moreover have "inj_on fst (set d)"
    using dist by (simp add: distinct_map)
  ultimately have "inj_on fst (insert ?p (set d))" and "inj_on fst (insert ?q (set d))"
    by (simp_all add: insert_absorb)
  then have "first_index (map fst d) (fst ?p) = first_index d ?p"
    and "first_index (map fst d) (fst ?q) = first_index d ?q"
    by (simp_all add: first_index_map)
  with lt show ?thesis
    by simp
qed

text \<open>
  Claim C9. For every text and configuration, two entries of \<^verbatim>\<open>top_words\<close> with equal
  counts stand in the order in which their tokens first occur in the filtered token
  sequence: the dictionary holds its keys in the order of first insertion, and the sort
  by descending count is stable.
\<close>

theorem tie_break_first_occurrence:
  assumes "i < j" and "j < length (top_words (process_text text cfg))"
    and "snd (top_words (process_text text cfg) ! i) = snd (top_words (process_text text cfg) ! j)"
  shows "first_index (filtered_tokens text cfg) (fst (top_words (process_text text cfg) ! i))
         < first_index (filtered_tokens text cfg) (fst (top_words (process_text text cfg) ! j))"
proof -
  let ?ws = "filtered_tokens text cfg"
  let ?d = "count_word_frequencies ?ws"
  let ?s = "py_sorted_reverse snd ?d"
  obtain m where top: "top_words (process_text text cfg) = take m ?s"
    using py_slice_to_prefix [of ?s "top_n cfg"]
    by (auto simp: process_text_unfold build_result_dict_def get_top_words_def
        sort_words_by_frequency_def)
  from assms(2) have jm: "j < m" and js: "j < length ?s"
    unfolding top by simp_all
  with assms(1) have im: "i < m"
    by simp
  have nth: "take m ?s ! i = ?s ! i" "take m ?s ! j = ?s ! j"
    using im jm by simp_all
  have eq: "snd (?s ! i) = snd (?s ! j)"
    using assms(3) unfolding top nth .
  have "first_index (map fst ?d) (fst (?s ! i)) < first_index (map fst ?d) (fst (?s ! j))"
    using distinct_count_word_frequencies assms(1) js eq by (rule equal_count_order)
  then have "first_index ?ws (fst (?s ! i)) < first_index ?ws (fst (?s ! j))"
    by (simp only: keys_count_word_frequencies_order first_index_first_occurrences)
  then show ?thesis
    unfolding top nth .
qed

theorem tie_break_first_occurrence_witness:
  "(0::nat) < 1 \<and>
   top_words (process_text ''owl cat dog cat owl'' CONFIG) =
     [(''owl'', 2), (''cat'', 2), (''dog'', 1)] \<and>
   first_index (filtered_tokens ''owl cat dog cat owl'' CONFIG)
     (fst (top_words (process_text ''owl cat dog cat owl'' CONFIG) ! 0))
   < first_index (filtered_tokens ''owl cat dog cat owl'' CONFIG)
     (fst (top_words (process_text ''owl cat dog cat owl'' CONFIG) ! 1))"
proof -
  have t: "top_words (process_text ''owl cat dog cat owl'' CONFIG) =
     [(''owl'', 2), (''cat'', 2), (''dog'', 1)]"
    by code_simp
  have h1: "(0::nat) < 1"
    by simp
  have h2: "1 < length (top_words (process_text ''owl cat dog cat owl'' CONFIG))"
    unfolding t by simp
  have h3: "snd (top_words (process_text ''owl cat dog cat owl'' CONFIG) ! 0) =
            snd (top_words (process_text ''owl cat dog cat owl'' CONFIG) ! 1)"
    unfolding t by simp
  from tie_break_first_occurrence [OF h1 h2 h3] t h1 show ?thesis
    by blast
qed

subsection \<open>Two runs\<close>

text \<open>
  What a run reads of its configuration: the stopwords through membership only, the
  punctuation through membership only, and the limit. The order and the repetitions of
  the two collections and the display fields have no influence on any stage.
\<close>

lemma clean_word_reads_set:
  "set p1 = set p2 \<Longrightarrow> clean_word w p1 = clean_word w p2"
  by (simp add: clean_word_def py_strip_def)

lemma clean_all_words_reads_set:
  assumes "set p1 = set p2"
  shows "clean_all_words ws p1 = clean_all_words ws p2"
proof -
  have "(\<lambda>w. clean_word w p1) = (\<lambda>w. clean_word w p2)"
    using clean_word_reads_set [OF assms] by blast
  then show ?thesis
    by (simp add: clean_all_words_def clean_loop_filter_map)
qed

lemma filter_stopwords_reads_set:
  "set s1 = set s2 \<Longrightarrow> filter_stopwords ws s1 = filter_stopwords ws s2"
  by (simp add: filter_stopwords_def)

lemma filtered_tokens_reads_sets:
  assumes "set (stopwords cfg1) = set (stopwords cfg2)"
    and "set (punctuation cfg1) = set (punctuation cfg2)"
  shows "filtered_tokens text cfg1 = filtered_tokens text cfg2"
proof -
  have "tokens text cfg1 = tokens text cfg2"
    unfolding tokens_def using assms(2) by (rule clean_all_words_reads_set)
  then show ?thesis
    unfolding filtered_tokens_def using filter_stopwords_reads_set [OF assms(1)] by simp
qed

text \<open>
  Claim C8. Two runs of \<^verbatim>\<open>process_text\<close> on the same text and the same configuration
  give the same result in every field. The configuration of the specification is a set
  of stopwords, a set of punctuation characters and a limit; two runs whose
  configurations hold the same two sets and the same limit, in whatever order the
  collections are enumerated and whatever the display fields are, give the same
  \<^verbatim>\<open>counts\<close>, the same \<^verbatim>\<open>top_words\<close> in the same order, and the same totals.
\<close>

theorem process_text_deterministic:
  assumes "text1 = text2"
    and "set (stopwords cfg1) = set (stopwords cfg2)"
    and "set (punctuation cfg1) = set (punctuation cfg2)"
    and "top_n cfg1 = top_n cfg2"
  shows "process_text text1 cfg1 = process_text text2 cfg2 \<and>
         counts (process_text text1 cfg1) = counts (process_text text2 cfg2) \<and>
         top_words (process_text text1 cfg1) = top_words (process_text text2 cfg2) \<and>
         total_words (process_text text1 cfg1) = total_words (process_text text2 cfg2) \<and>
         unique_words (process_text text1 cfg1) = unique_words (process_text text2 cfg2)"
proof -
  have "filtered_tokens text1 cfg1 = filtered_tokens text2 cfg2"
    unfolding assms(1) using assms(2,3) by (rule filtered_tokens_reads_sets)
  then have "process_text text1 cfg1 = process_text text2 cfg2"
    unfolding process_text_unfold using assms(4) by simp
  then show ?thesis
    by simp
qed

theorem process_text_deterministic_witness:
  "set (stopwords CONFIG) = set (stopwords (CONFIG\<lparr>stopwords := ''the'' # rev (stopwords CONFIG), bar_char := ''#''\<rparr>)) \<and>
   set (punctuation CONFIG) = set (punctuation (CONFIG\<lparr>stopwords := ''the'' # rev (stopwords CONFIG), bar_char := ''#''\<rparr>)) \<and>
   top_n CONFIG = top_n (CONFIG\<lparr>stopwords := ''the'' # rev (stopwords CONFIG), bar_char := ''#''\<rparr>) \<and>
   process_text ''The owl, the cat; the owl.'' CONFIG =
     process_text ''The owl, the cat; the owl.''
       (CONFIG\<lparr>stopwords := ''the'' # rev (stopwords CONFIG), bar_char := ''#''\<rparr>) \<and>
   top_words (process_text ''The owl, the cat; the owl.'' CONFIG) = [(''owl'', 2), (''cat'', 1)]"
proof -
  let ?cfg = "CONFIG\<lparr>stopwords := ''the'' # rev (stopwords CONFIG), bar_char := ''#''\<rparr>"
  have h1: "''The owl, the cat; the owl.'' = ''The owl, the cat; the owl.''"
    by simp
  have "''the'' \<in> set (stopwords CONFIG)"
    by code_simp
  then have h2: "set (stopwords CONFIG) = set (stopwords ?cfg)"
    by auto
  have h3: "set (punctuation CONFIG) = set (punctuation ?cfg)"
    by simp
  have h4: "top_n CONFIG = top_n ?cfg"
    by simp
  have k: "top_words (process_text ''The owl, the cat; the owl.'' CONFIG) =
             [(''owl'', 2), (''cat'', 1)]"
    by code_simp
  from process_text_deterministic [OF h1 h2 h3 h4] h2 h3 h4 k show ?thesis
    by blast
qed

end
